theory Spec2Isabelle
  imports Main "HOL-Library.Word"
begin

section \<open>Python string primitives\<close>

text \<open>
  A Python \<open>str\<close> is modelled as a \<^typ>\<open>string\<close>, each \<^typ>\<open>char\<close> standing for
  the code point of the same number (0 to 255). The character classes below are those
  of CPython for this range.
\<close>

definition isspace :: "char \<Rightarrow> bool" where
  \<comment> \<open>\<open>str.isspace\<close> on one character: TAB to CR, FS to US, space, NEL, NBSP.\<close>
  "isspace c = (let n = (of_char c :: nat) in
     (9 \<le> n \<and> n \<le> 13) \<or> (28 \<le> n \<and> n \<le> 32) \<or> n = 133 \<or> n = 160)"

definition isdigit :: "char \<Rightarrow> bool" where
  \<comment> \<open>\<open>str.isdigit\<close> on one character: 0 to 9, and the superscripts 2, 3 and 1.\<close>
  "isdigit c = (let n = (of_char c :: nat) in
     (48 \<le> n \<and> n \<le> 57) \<or> n = 178 \<or> n = 179 \<or> n = 185)"

definition lower_char :: "char \<Rightarrow> char" where
  \<comment> \<open>\<open>str.lower\<close> on one character: A to Z and the capital letters of Latin-1 move up
      by 32, which sets the bit of weight 32 (it is clear in both ranges).\<close>
  "lower_char c = (let n = (of_char c :: nat) in
     if (65 \<le> n \<and> n \<le> 90) \<or> (192 \<le> n \<and> n \<le> 222 \<and> n \<noteq> 215)
     then (case c of Char b0 b1 b2 b3 b4 b5 b6 b7 \<Rightarrow> Char b0 b1 b2 b3 b4 True b6 b7)
     else c)"

definition lower :: "string \<Rightarrow> string" where
  "lower s = map lower_char s"

definition strip :: "string \<Rightarrow> string" where
  \<comment> \<open>\<open>s.strip()\<close>\<close>
  "strip s = rev (dropWhile isspace (rev (dropWhile isspace s)))"

definition startswith :: "string \<Rightarrow> string \<Rightarrow> bool" where
  \<comment> \<open>\<open>s.startswith(p)\<close>\<close>
  "startswith s p = (take (length p) s = p)"

fun contains_str :: "string \<Rightarrow> string \<Rightarrow> bool" where
  \<comment> \<open>\<open>sub in s\<close>\<close>
  "contains_str sub [] = (sub = [])"
| "contains_str sub (x # xs) = (startswith (x # xs) sub \<or> contains_str sub xs)"

function split_str :: "string \<Rightarrow> string \<Rightarrow> string list" where
  \<comment> \<open>\<open>s.split(sep)\<close> for a separator that is not empty, as \<open>split_str sep s\<close>: the
      pieces between the occurrences of \<open>sep\<close>, found from left to right without overlap.\<close>
  "split_str sep [] = [[]]"
| "split_str sep (x # xs) =
     (if startswith (x # xs) sep then [] # split_str sep (drop (length sep - 1) xs)
      else (case split_str sep xs of [] \<Rightarrow> [] | p # ps \<Rightarrow> (x # p) # ps))"
  by pat_completeness auto
termination
  by (relation "measure (\<lambda>(sep, s). length s)") auto

fun split_once :: "string \<Rightarrow> string \<Rightarrow> string list" where
  \<comment> \<open>\<open>s.split(sep, 1)\<close> as \<open>split_once sep s\<close>: at most one cut, at the first occurrence.\<close>
  "split_once sep [] = [[]]"
| "split_once sep (x # xs) =
     (if startswith (x # xs) sep then [[], drop (length sep) (x # xs)]
      else (case split_once sep xs of [] \<Rightarrow> [] | p # ps \<Rightarrow> (x # p) # ps))"

function split_ws :: "string \<Rightarrow> string list" where
  \<comment> \<open>\<open>s.split()\<close>: the maximal runs of characters that are not whitespace.\<close>
  "split_ws s =
     (let t = dropWhile isspace s in
      if t = [] then []
      else takeWhile (\<lambda>c. \<not> isspace c) t # split_ws (dropWhile (\<lambda>c. \<not> isspace c) t))"
  by pat_completeness auto
termination
proof (relation "measure length")
  show "wf (measure length)" by simp
next
  fix s t :: string
  assume t: "t = dropWhile isspace s" and ne: "t \<noteq> []"
  from ne obtain c r where cr: "t = c # r" by (auto simp: neq_Nil_conv)
  have "dropWhile isspace s \<noteq> []" using t ne by simp
  then have "\<not> isspace (hd (dropWhile isspace s))" by (rule hd_dropWhile)
  then have "\<not> isspace c" unfolding t [symmetric] cr by simp
  then have "length (dropWhile (\<lambda>c. \<not> isspace c) t) \<le> length r"
    using cr by (simp add: length_dropWhile_le)
  moreover have "length t \<le> length s" using t by (simp add: length_dropWhile_le)
  ultimately show "(dropWhile (\<lambda>c. \<not> isspace c) t, s) \<in> measure length"
    using cr by simp
qed

declare split_ws.simps [simp del]

fun join :: "string \<Rightarrow> string list \<Rightarrow> string" where
  \<comment> \<open>\<open>sep.join(parts)\<close>\<close>
  "join sep [] = []"
| "join sep [p] = p"
| "join sep (p # q # ps) = p @ sep @ join sep (q # ps)"

section \<open>Python values, \<open>int()\<close> and \<open>float()\<close>\<close>

datatype error = ValueError | UnicodeDecodeError | HTTPException nat string

datatype pyfloat =
    Finite bool nat int  \<comment> \<open>sign (True is minus), decimal digits \<open>m\<close>, exponent \<open>e\<close>: the
      decimal \<open>m * 10^e\<close> the text denotes, which Python then rounds to a double\<close>
  | Infinity bool
  | NaN

datatype pyval = VBool bool | VInt int | VFloat pyfloat | VStr string

definition is_digit :: "char \<Rightarrow> bool" where
  \<comment> \<open>The decimal digits \<open>int()\<close> and \<open>float()\<close> read: 0 to 9.\<close>
  "is_digit c = (let n = (of_char c :: nat) in 48 \<le> n \<and> n \<le> 57)"

definition digits_value :: "string \<Rightarrow> nat" where
  "digits_value ds = foldl (\<lambda>a c. 10 * a + (of_char c - 48)) 0 ds"

fun digit_groups :: "string \<Rightarrow> bool" where
  \<comment> \<open>Digits with single underscores between them: \<open>digit (_? digit)*\<close>.\<close>
  "digit_groups [] = False"
| "digit_groups [c] = is_digit c"
| "digit_groups (c # d # r) =
     (is_digit c \<and> (if d = CHR ''_'' then digit_groups r else digit_groups (d # r)))"

definition take_sign :: "string \<Rightarrow> bool \<times> string" where
  \<comment> \<open>An optional leading \<open>+\<close> or \<open>-\<close>.\<close>
  "take_sign s = (case s of
       [] \<Rightarrow> (False, [])
     | c # r \<Rightarrow> if c = CHR ''-'' then (True, r) else if c = CHR ''+'' then (False, r)
                else (False, s))"

definition py_int :: "string \<Rightarrow> error + int" where
  \<comment> \<open>\<open>int(s)\<close>: surrounding whitespace, a sign, digits in groups. The interpreter's
      limit on the number of digits is not modelled.\<close>
  "py_int s = (case take_sign (strip s) of (neg, body) \<Rightarrow>
     if digit_groups body
     then (let n = int (digits_value (filter (\<lambda>c. c \<noteq> CHR ''_'') body))
           in Inr (if neg then - n else n))
     else Inl ValueError)"

fun underscores_ok :: "char \<Rightarrow> string \<Rightarrow> bool" where
  \<comment> \<open>\<open>float()\<close> allows an underscore only between two digits; the first argument is the
      character before.\<close>
  "underscores_ok prev [] = (prev \<noteq> CHR ''_'')"
| "underscores_ok prev (c # r) =
     ((if c = CHR ''_'' then is_digit prev
       else if prev = CHR ''_'' then is_digit c else True)
      \<and> underscores_ok c r)"

definition parse_decimal :: "string \<Rightarrow> (nat \<times> int) option" where
  \<comment> \<open>\<open>digits [. digits] [e [sign] digits]\<close> with a digit before the exponent.\<close>
  "parse_decimal s =
     (let ip = takeWhile is_digit s; r1 = dropWhile is_digit s;
          fp = (case r1 of [] \<Rightarrow> [] | c # r \<Rightarrow> if c = CHR ''.'' then takeWhile is_digit r else []);
          r2 = (case r1 of [] \<Rightarrow> [] | c # r \<Rightarrow> if c = CHR ''.'' then dropWhile is_digit r else r1);
          m = digits_value (ip @ fp)
      in if ip = [] \<and> fp = [] then None
         else (case r2 of
             [] \<Rightarrow> Some (m, - int (length fp))
           | c # r3 \<Rightarrow>
               if c = CHR ''e'' \<or> c = CHR ''E''
               then (case take_sign r3 of (eneg, ds) \<Rightarrow>
                  if ds \<noteq> [] \<and> list_all is_digit ds
                  then Some (m, (if eneg then - int (digits_value ds) else int (digits_value ds))
                                - int (length fp))
                  else None)
               else None))"

definition py_float :: "string \<Rightarrow> error + pyfloat" where
  \<comment> \<open>\<open>float(s)\<close>: surrounding whitespace, a sign, then \<open>inf\<close>, \<open>infinity\<close>, \<open>nan\<close> in
      any case, or a decimal.\<close>
  "py_float s =
     (let t = strip s in
      if \<not> underscores_ok (CHR 0x00) t then Inl ValueError
      else (case take_sign (filter (\<lambda>c. c \<noteq> CHR ''_'') t) of (neg, body) \<Rightarrow>
        if lower body = ''inf'' \<or> lower body = ''infinity'' then Inr (Infinity neg)
        else if lower body = ''nan'' then Inr NaN
        else (case parse_decimal body of
            Some (m, e) \<Rightarrow> Inr (Finite neg m e)
          | None \<Rightarrow> Inl ValueError)))"

section \<open>The query endpoint\<close>

record QueryRequest =
  dataset_id :: string
  query :: string
  limit :: int

definition QueryRequest_new :: "string \<Rightarrow> string \<Rightarrow> int option \<Rightarrow> QueryRequest" where
  \<comment> \<open>The request model: \<open>limit: int = 100\<close>.\<close>
  "QueryRequest_new d q l =
     \<lparr>dataset_id = d, query = q, limit = (case l of None \<Rightarrow> 100 | Some n \<Rightarrow> n)\<rparr>"

subsection \<open>The filter handed to the store\<close>

text \<open>
  The filter is a Python dictionary of one of three shapes, one constructor each:
  \<^item> \<open>{field: value}\<close>, the equality of a field with a value;
  \<^item> \<open>{field: {"$regex": pattern, "$options": options}}\<close> and \<open>{field: {operator: value}}\<close>,
    a condition on a field;
  \<^item> \<open>{"$and": [filter, ...]}\<close>.
\<close>

datatype cond = Regex string string | Op string pyval

datatype mfilter = FieldIs string pyval | FieldCond string cond | And "mfilter list"

definition ops :: "string list" where
  "ops = [''>='', ''<='', ''>'', ''<'', ''='', ''!='', '' is '']"

definition mongo_op_map :: "(string \<times> string) list" where
  "mongo_op_map = [(''='', ''$eq''), (''!='', ''$ne''), (''>'', ''$gt''), (''<'', ''$lt''),
     (''>='', ''$gte''), (''<='', ''$lte'')]"

definition cast_value :: "string \<Rightarrow> pyval" where
  \<comment> \<open>The block under \<open># cast numbers/bool\<close>; a bare \<open>except\<close> keeps the text.\<close>
  "cast_value val =
     (if lower val \<in> set [''true'', ''false''] then VBool (lower val = ''true'')
      else if contains_str ''.'' val
      then (case py_float val of Inr x \<Rightarrow> VFloat x | Inl e \<Rightarrow> VStr val)
      else (case py_int val of Inr n \<Rightarrow> VInt n | Inl e \<Rightarrow> VStr val))"

definition compare_clause :: "string \<Rightarrow> string \<Rightarrow> error + mfilter list" where
  \<comment> \<open>The body of \<open>if op in c\<close>, up to \<open>break\<close>: what the clause appends to
      \<open>and_parts\<close>. Unpacking \<open>col, val\<close> raises when the split does not give two pieces.\<close>
  "compare_clause op c =
     (case split_once op c of
        [col0, val0] \<Rightarrow>
          (let col = strip col0; val = strip val0;
               op_tok = (if strip op = ''is'' then ''='' else op);
               v_cast = cast_value val
           in (case map_of mongo_op_map op_tok of
                 Some m \<Rightarrow> Inr [FieldCond (''data.'' @ col) (Op m v_cast)]
               | None \<Rightarrow> Inr []))
      | _ \<Rightarrow> Inl ValueError)"

fun scan_ops :: "string list \<Rightarrow> string \<Rightarrow> error + mfilter list" where
  \<comment> \<open>The loop \<open>for op in [...]\<close> over one clause, left at the first operator found.\<close>
  "scan_ops [] c = Inr []"
| "scan_ops (op # rest) c =
     (if contains_str op c then compare_clause op c else scan_ops rest c)"

definition compile_clause :: "string \<Rightarrow> error + mfilter list" where
  \<comment> \<open>The body of \<open>for c in clauses\<close>: what one clause appends to \<open>and_parts\<close>.\<close>
  "compile_clause c =
     (if startswith (lower c) ''contains ''
      then (let parts = split_ws c in
            if length parts \<ge> 3
            then Inr [FieldCond (''data.'' @ parts ! 1) (Regex (join '' '' (drop 2 parts)) ''i'')]
            else Inr [])
      else scan_ops ops c)"

fun compile_clauses :: "string list \<Rightarrow> mfilter list \<Rightarrow> error + mfilter list" where
  \<comment> \<open>The loop \<open>for c in clauses\<close> with \<open>and_parts\<close> as its state.\<close>
  "compile_clauses [] and_parts = Inr and_parts"
| "compile_clauses (c # cs) and_parts =
     (case compile_clause c of
        Inl e \<Rightarrow> Inl e
      | Inr new \<Rightarrow> compile_clauses cs (and_parts @ new))"

definition build_filter :: "string \<Rightarrow> string \<Rightarrow> error + mfilter" where
  \<comment> \<open>\<open>filter_dict\<close> of \<open>query_dataset\<close> from \<open>req.dataset_id\<close> and \<open>req.query\<close>.\<close>
  "build_filter did q =
     (let text = strip q in
      if text = [] then Inr (FieldIs ''dataset_id'' (VStr did))
      else (let clauses = filter (\<lambda>c. c \<noteq> []) (map strip (split_str '' and '' text)) in
            case compile_clauses clauses [] of
              Inl e \<Rightarrow> Inl e
            | Inr and_parts \<Rightarrow>
                if and_parts \<noteq> []
                then Inr (And (FieldIs ''dataset_id'' (VStr did) # and_parts))
                else Inr (FieldIs ''dataset_id'' (VStr did))))"

record find_call =
  find_filter :: mfilter
  find_limit :: int

definition query_dataset :: "'db option \<Rightarrow> QueryRequest \<Rightarrow> error + find_call" where
  \<comment> \<open>The endpoint up to its call of the store:
      \<open>db["record"].find(filter_dict).limit(min(max(req.limit, 1), 1000))\<close>.\<close>
  "query_dataset db req =
     (case db of
        None \<Rightarrow> Inl (HTTPException 500 ''Database not available'')
      | Some d \<Rightarrow>
          (case build_filter (dataset_id req) (query req) of
             Inl e \<Rightarrow> Inl e
           | Inr f \<Rightarrow> Inr \<lparr>find_filter = f, find_limit = min (max (limit req) 1) 1000\<rparr>))"

definition clause_parts :: "string \<Rightarrow> mfilter list" where
  \<comment> \<open>The conditions one clause contributes (none when it is dropped).\<close>
  "clause_parts c = (case compile_clause c of Inr ps \<Rightarrow> ps | Inl e \<Rightarrow> [])"

fun holds :: "(mfilter \<Rightarrow> 'doc \<Rightarrow> bool) \<Rightarrow> 'doc \<Rightarrow> mfilter \<Rightarrow> bool" where
  \<comment> \<open>A document passes a filter: \<open>$and\<close> asks for every member; how the store decides a
      single field is its own affair, the parameter \<open>atom\<close>.\<close>
  "holds atom doc (And fs) = list_all (holds atom doc) fs"
| "holds atom doc (FieldIs k v) = atom (FieldIs k v) doc"
| "holds atom doc (FieldCond k c) = atom (FieldCond k c) doc"

section \<open>The upload endpoint\<close>

subsection \<open>Decoding the file\<close>

text \<open>
  \<open>content.decode("utf-8", errors="ignore")\<close>: the decoder of CPython, which reads one
  character of one to four bytes at a time. On a malformed character it reports how many
  bytes are at fault; \<open>strict\<close> raises there, \<open>ignore\<close> drops these bytes and goes on.
\<close>

type_synonym byte = "8 word"

datatype errors = Strict | Ignore

datatype utf8_step =
    Decoded int nat  \<comment> \<open>code point, bytes read\<close>
  | InvalidStart
  | InvalidContinuation nat  \<comment> \<open>bytes at fault\<close>
  | UnexpectedEnd

definition is_continuation :: "byte \<Rightarrow> bool" where
  "is_continuation b = (0x80 \<le> b \<and> b < 0xC0)"

fun utf8_first :: "byte list \<Rightarrow> utf8_step" where
  "utf8_first [] = UnexpectedEnd"
| "utf8_first (ch # r) =
     (if ch < 0x80 then Decoded (uint ch) 1
      else if ch < 0xC2 then InvalidStart
      else if ch < 0xE0 then
        (case r of
           [] \<Rightarrow> UnexpectedEnd
         | ch2 # r2 \<Rightarrow>
             if is_continuation ch2
             then Decoded ((uint ch - 0xC0) * 64 + (uint ch2 - 0x80)) 2
             else InvalidContinuation 1)
      else if ch < 0xF0 then
        (case r of
           [] \<Rightarrow> UnexpectedEnd
         | ch2 # r2 \<Rightarrow>
             if is_continuation ch2 \<and> (if ch2 < 0xA0 then ch \<noteq> 0xE0 else ch \<noteq> 0xED)
             then (case r2 of
                 [] \<Rightarrow> UnexpectedEnd
               | ch3 # r3 \<Rightarrow>
                   if is_continuation ch3
                   then Decoded ((uint ch - 0xE0) * 4096 + (uint ch2 - 0x80) * 64
                                 + (uint ch3 - 0x80)) 3
                   else InvalidContinuation 2)
             else InvalidContinuation 1)
      else if ch < 0xF5 then
        (case r of
           [] \<Rightarrow> UnexpectedEnd
         | ch2 # r2 \<Rightarrow>
             if is_continuation ch2 \<and> (if ch2 < 0x90 then ch \<noteq> 0xF0 else ch \<noteq> 0xF4)
             then (case r2 of
                 [] \<Rightarrow> UnexpectedEnd
               | ch3 # r3 \<Rightarrow>
                   if is_continuation ch3
                   then (case r3 of
                       [] \<Rightarrow> UnexpectedEnd
                     | ch4 # r4 \<Rightarrow>
                         if is_continuation ch4
                         then Decoded ((uint ch - 0xF0) * 262144 + (uint ch2 - 0x80) * 4096
                                       + (uint ch3 - 0x80) * 64 + (uint ch4 - 0x80)) 4
                         else InvalidContinuation 3)
                   else InvalidContinuation 2)
             else InvalidContinuation 1)
      else InvalidStart)"

function utf8_decode :: "errors \<Rightarrow> byte list \<Rightarrow> error + int list" where
  \<comment> \<open>The text as its code points, or the exception of \<open>strict\<close>.\<close>
  "utf8_decode h [] = Inr []"
| "utf8_decode h (ch # r) =
     (case utf8_first (ch # r) of
        Decoded cp n \<Rightarrow>
          (case utf8_decode h (drop (n - 1) r) of
             Inl e \<Rightarrow> Inl e
           | Inr cps \<Rightarrow> Inr (cp # cps))
      | InvalidStart \<Rightarrow>
          (case h of Strict \<Rightarrow> Inl UnicodeDecodeError | Ignore \<Rightarrow> utf8_decode h r)
      | InvalidContinuation n \<Rightarrow>
          (case h of Strict \<Rightarrow> Inl UnicodeDecodeError
           | Ignore \<Rightarrow> utf8_decode h (drop (n - 1) r))
      | UnexpectedEnd \<Rightarrow>
          (case h of Strict \<Rightarrow> Inl UnicodeDecodeError | Ignore \<Rightarrow> Inr []))"
  by pat_completeness auto
termination
  by (relation "measure (\<lambda>(h, bs). length bs)") auto

definition decode_content :: "byte list \<Rightarrow> error + int list" where
  \<comment> \<open>The \<open>try\<close> around the decoding: any exception becomes the answer 400.\<close>
  "decode_content content =
     (case utf8_decode Ignore content of
        Inl e \<Rightarrow> Inl (HTTPException 400 ''Unable to decode file as UTF-8'')
      | Inr text \<Rightarrow> Inr text)"

subsection \<open>The type of one cell\<close>

definition infer_type :: "string option \<Rightarrow> string" where
  \<comment> \<open>\<open>None\<close> is the cell a short row does not have.\<close>
  "infer_type value =
     (case value of
        None \<Rightarrow> ''string''
      | Some s \<Rightarrow>
          if s = [] then ''string''
          else (let v = strip s in
            if lower v \<in> set [''true'', ''false''] then ''boolean''
            else if \<not> isl (py_int v) then ''number''
            else if \<not> isl (py_float v) then ''number''
            else if list_ex (\<lambda>sep. contains_str sep v) [''-'', ''/''] \<and> list_ex isdigit v
            then ''date''
            else ''string''))"

definition infer_type_rules :: "string option \<Rightarrow> string" where
  \<comment> \<open>The six rules as the specification words them, each on the value as it stands, the
      first that applies deciding.\<close>
  "infer_type_rules value =
     (case value of
        None \<Rightarrow> ''string''
      | Some s \<Rightarrow>
          if s = [] then ''string''
          else if lower s = ''true'' \<or> lower s = ''false'' then ''boolean''
          else if \<not> isl (py_int s) then ''number''
          else if \<not> isl (py_float s) then ''number''
          else if (contains_str ''-'' s \<or> contains_str ''/'' s) \<and> list_ex isdigit s
          then ''date''
          else ''string'')"

subsection \<open>The vote over the sampled rows\<close>

text \<open>
  A Python dictionary keeps its keys in the order they were first stored, which the vote
  depends on: it is a list of pairs here. A row, as the CSV reader gives it, answers
  \<open>row.get(c)\<close>.
\<close>

type_synonym 'v pydict = "(string \<times> 'v) list"

type_synonym row = "string \<Rightarrow> string option"

fun dict_get :: "'v pydict \<Rightarrow> string \<Rightarrow> 'v \<Rightarrow> 'v" where
  \<comment> \<open>\<open>d.get(k, default)\<close>\<close>
  "dict_get [] k dflt = dflt"
| "dict_get ((k', v) # d) k dflt = (if k' = k then v else dict_get d k dflt)"

fun dict_set :: "'v pydict \<Rightarrow> string \<Rightarrow> 'v \<Rightarrow> 'v pydict" where
  \<comment> \<open>\<open>d[k] = v\<close>: a key already there keeps its place, a new one goes last.\<close>
  "dict_set [] k v = [(k, v)]"
| "dict_set ((k', v') # d) k v = (if k' = k then (k, v) # d else (k', v') # dict_set d k v)"

definition bump_count :: "nat pydict \<Rightarrow> string \<Rightarrow> nat pydict" where
  \<comment> \<open>\<open>d[t] = d.get(t, 0) + 1\<close>\<close>
  "bump_count d t = dict_set d t (dict_get d t 0 + 1)"

definition count_cell :: "(string \<Rightarrow> nat pydict) \<Rightarrow> row \<Rightarrow> string \<Rightarrow> (string \<Rightarrow> nat pydict)" where
  \<comment> \<open>The body of \<open>for c in columns\<close>. \<open>type_counts\<close> holds a dictionary for every column
      from the start and is read at columns only: a total function.\<close>
  "count_cell tc r c = (let t = infer_type (r c) in tc(c := bump_count (tc c) t))"

record upload_state =
  rows :: "row list"
  preview_rows :: "row list"
  type_counts :: "string \<Rightarrow> nat pydict"

definition scan_row :: "string list \<Rightarrow> nat \<Rightarrow> row \<Rightarrow> upload_state \<Rightarrow> upload_state" where
  \<comment> \<open>The body of \<open>for i, row in enumerate(reader)\<close>.\<close>
  "scan_row columns i r st =
     (let st1 = st\<lparr>rows := rows st @ [r]\<rparr>;
          st2 = (if length (preview_rows st1) < 50
                 then st1\<lparr>preview_rows := preview_rows st1 @ [r]\<rparr> else st1)
      in if i < 100
         then st2\<lparr>type_counts := foldl (\<lambda>tc c. count_cell tc r c) (type_counts st2) columns\<rparr>
         else st2)"

fun scan_rows :: "string list \<Rightarrow> nat \<Rightarrow> row list \<Rightarrow> upload_state \<Rightarrow> upload_state" where
  "scan_rows columns i [] st = st"
| "scan_rows columns i (r # rest) st = scan_rows columns (Suc i) rest (scan_row columns i r st)"

fun max_from :: "(string \<times> nat) \<Rightarrow> (string \<times> nat) list \<Rightarrow> (string \<times> nat)" where
  \<comment> \<open>The scan of \<open>max\<close>: the best so far gives way to a strictly greater key only.\<close>
  "max_from best [] = best"
| "max_from best (kv # r) = max_from (if snd kv > snd best then kv else best) r"

definition max_items :: "nat pydict \<Rightarrow> error + (string \<times> nat)" where
  \<comment> \<open>\<open>max(d.items(), key=lambda kv: kv[1])\<close>, which raises on no item.\<close>
  "max_items d = (case d of [] \<Rightarrow> Inl ValueError | kv # r \<Rightarrow> Inr (max_from kv r))"

definition column_type :: "nat pydict \<Rightarrow> error + string" where
  \<comment> \<open>The body of the loop that fills \<open>column_types\<close>, for the counts of one column.\<close>
  "column_type d =
     (if d \<noteq> []
      then (case max_items d of Inl e \<Rightarrow> Inl e | Inr kv \<Rightarrow> Inr (fst kv))
      else Inr ''string'')"

fun column_types_loop ::
    "string list \<Rightarrow> (string \<Rightarrow> nat pydict) \<Rightarrow> string pydict \<Rightarrow> error + string pydict" where
  \<comment> \<open>The loop \<open>for c in columns\<close> that fills \<open>column_types\<close>.\<close>
  "column_types_loop [] tc ct = Inr ct"
| "column_types_loop (c # cs) tc ct =
     (case column_type (tc c) of
        Inl e \<Rightarrow> Inl e
      | Inr t \<Rightarrow> column_types_loop cs tc (dict_set ct c t))"

definition infer_columns :: "string list \<Rightarrow> row list \<Rightarrow> error + string pydict" where
  \<comment> \<open>\<open>column_types\<close> of \<open>upload_csv\<close>, from the header and the rows of the reader.\<close>
  "infer_columns columns reader =
     (let st = scan_rows columns 0 reader
                 \<lparr>rows = [], preview_rows = [], type_counts = (\<lambda>c. [])\<rparr>
      in column_types_loop columns (type_counts st) [])"

definition column_votes :: "string list \<Rightarrow> row list \<Rightarrow> string \<Rightarrow> string list" where
  \<comment> \<open>The votes a column receives, in order: one per sampled row for each time the column
      stands in the header.\<close>
  "column_votes columns reader c =
     concat (map (\<lambda>r. map (\<lambda>c'. infer_type (r c')) (filter (\<lambda>c'. c' = c) columns))
                 (take 100 reader))"

definition first_pos :: "'a list \<Rightarrow> 'a \<Rightarrow> nat" where
  \<comment> \<open>Where a value first occurs in a list.\<close>
  "first_pos xs x = length (takeWhile (\<lambda>y. y \<noteq> x) xs)"

definition first_seen :: "'a list \<Rightarrow> 'a list" where
  \<comment> \<open>The values of a list, each once, in the order of their first occurrence.\<close>
  "first_seen xs = rev (remdups (rev xs))"

section \<open>Properties\<close>

subsection \<open>Evaluation and totality of the compiler\<close>

lemmas eval_defs =
  build_filter_def query_dataset_def compile_clause_def compare_clause_def clause_parts_def
  ops_def
  mongo_op_map_def cast_value_def py_int_def py_float_def parse_decimal_def take_sign_def
  is_digit_def digits_value_def strip_def isspace_def startswith_def lower_def
  lower_char_def split_ws.simps

lemma split_once_two:
  "sep \<noteq> [] \<Longrightarrow> contains_str sep s \<Longrightarrow> \<exists>a b. split_once sep s = [a, b]"
  by (induction s) auto

lemma scan_ops_total:
  "\<forall>op\<in>set os. op \<noteq> [] \<Longrightarrow> \<exists>ps. scan_ops os c = Inr ps"
proof (induction os)
  case Nil
  then show ?case by simp
next
  case (Cons op rest)
  show ?case
  proof (cases "contains_str op c")
    case True
    from Cons.prems have "op \<noteq> []" by simp
    from split_once_two [OF this True] obtain a b where "split_once op c = [a, b]" by blast
    then show ?thesis using True by (simp add: compare_clause_def Let_def split: option.split)
  next
    case False
    then show ?thesis using Cons by simp
  qed
qed

lemma compile_clause_total: "\<exists>ps. compile_clause c = Inr ps"
  using scan_ops_total [of ops c] by (simp add: compile_clause_def Let_def ops_def)

lemma compile_clause_parts: "compile_clause c = Inr (clause_parts c)"
  using compile_clause_total [of c] by (auto simp: clause_parts_def)

lemma compile_clauses_concat:
  "compile_clauses cs acc = Inr (acc @ concat (map clause_parts cs))"
  by (induction cs arbitrary: acc) (simp_all add: compile_clause_parts)

lemma build_filter_shape:
  "build_filter did q = Inr (FieldIs ''dataset_id'' (VStr did)) \<or>
   (\<exists>ps. build_filter did q = Inr (And (FieldIs ''dataset_id'' (VStr did) # ps)))"
  by (simp add: build_filter_def Let_def compile_clauses_concat)

lemma build_filter_total: "\<exists>f. build_filter did q = Inr f"
  using build_filter_shape [of did q] by blast

lemma query_dataset_call:
  "\<exists>f. build_filter (dataset_id req) (query req) = Inr f \<and>
       query_dataset (Some db) req =
         Inr \<lparr>find_filter = f, find_limit = min (max (limit req) 1) 1000\<rparr>"
  using build_filter_total [of "dataset_id req" "query req"]
  by (auto simp: query_dataset_def)

subsection \<open>The dataset scope\<close>

text \<open>
  C1. Whatever the dataset id and the query, with the store at hand the endpoint reaches
  its call of the store, and the filter of the call is the equality of \<open>dataset_id\<close> with
  the requested id, alone or as the first member of an \<open>$and\<close>. So a document that passes
  the filter satisfies this equality, however the store decides single fields.
\<close>

theorem query_scoped_to_dataset:
  "\<exists>call. query_dataset (Some db) req = Inr call \<and>
     (find_filter call = FieldIs ''dataset_id'' (VStr (dataset_id req)) \<or>
      (\<exists>ps. find_filter call = And (FieldIs ''dataset_id'' (VStr (dataset_id req)) # ps))) \<and>
     (\<forall>atom doc. holds atom doc (find_filter call) \<longrightarrow>
        atom (FieldIs ''dataset_id'' (VStr (dataset_id req))) doc)"
proof -
  from query_dataset_call [of req db] obtain f where
    f: "build_filter (dataset_id req) (query req) = Inr f" and
    q: "query_dataset (Some db) req =
          Inr \<lparr>find_filter = f, find_limit = min (max (limit req) 1) 1000\<rparr>"
    by blast
  from build_filter_shape [of "dataset_id req" "query req"] f
  have shape: "f = FieldIs ''dataset_id'' (VStr (dataset_id req)) \<or>
      (\<exists>ps. f = And (FieldIs ''dataset_id'' (VStr (dataset_id req)) # ps))"
    by auto
  then have "\<forall>atom doc. holds atom doc f \<longrightarrow>
      atom (FieldIs ''dataset_id'' (VStr (dataset_id req))) doc"
    by auto
  with q shape show ?thesis by simp
qed

theorem query_scoped_to_dataset_witness:
  "\<exists>call. query_dataset (Some ())
       \<lparr>dataset_id = ''d1'', query = ''price > 100 and nonsense'', limit = 100\<rparr> = Inr call \<and>
     holds (\<lambda>f doc. case f of FieldIs k v \<Rightarrow> v = VStr doc | _ \<Rightarrow> True) ''d1''
       (find_filter call) \<and>
     (case FieldIs ''dataset_id'' (VStr ''d1'') of FieldIs k v \<Rightarrow> v = VStr ''d1'' | _ \<Rightarrow> True)"
proof -
  let ?req = "\<lparr>dataset_id = ''d1'', query = ''price > 100 and nonsense'', limit = 100\<rparr>"
  from query_scoped_to_dataset [of "()" ?req] obtain call where
    all: "query_dataset (Some ()) ?req = Inr call \<and>
     (find_filter call = FieldIs ''dataset_id'' (VStr (dataset_id ?req)) \<or>
      (\<exists>ps. find_filter call = And (FieldIs ''dataset_id'' (VStr (dataset_id ?req)) # ps))) \<and>
     (\<forall>atom (doc::string). holds atom doc (find_filter call) \<longrightarrow>
        atom (FieldIs ''dataset_id'' (VStr (dataset_id ?req))) doc)" ..
  from all have c: "query_dataset (Some ()) ?req = Inr call"
    by (rule conjunct1)
  from all have imp: "\<forall>atom (doc::string). holds atom doc (find_filter call) \<longrightarrow>
        atom (FieldIs ''dataset_id'' (VStr (dataset_id ?req))) doc"
    by (rule conjunct2 [THEN conjunct2])
  have "query_dataset (Some ()) ?req =
      Inr \<lparr>find_filter = And [FieldIs ''dataset_id'' (VStr ''d1''),
              FieldCond ''data.price'' (Op ''$gt'' (VInt 100))], find_limit = 100\<rparr>"
    by (simp add: eval_defs)
  with c have call: "find_filter call = And [FieldIs ''dataset_id'' (VStr ''d1''),
              FieldCond ''data.price'' (Op ''$gt'' (VInt 100))]"
    by auto
  have h: "holds (\<lambda>f doc. case f of FieldIs k v \<Rightarrow> v = VStr doc | _ \<Rightarrow> True) ''d1''
       (find_filter call)"
    by (simp add: call)
  from imp [rule_format, OF h] have "(case FieldIs ''dataset_id'' (VStr ''d1'') of
      FieldIs k v \<Rightarrow> v = VStr ''d1'' | _ \<Rightarrow> True)"
    by simp
  with c h show ?thesis by (intro exI [of _ call] conjI)
qed

subsection \<open>The limit\<close>

text \<open>
  C8. The limit of the call of the store is \<open>min(max(limit, 1), 1000)\<close>: between 1 and
  1000, the requested limit when it lies there, 1 for zero and below, 1000 for 1000 and
  above. A request that names no limit asks for 100.
\<close>

theorem query_limit_clamped:
  "\<exists>call. query_dataset (Some db) req = Inr call \<and>
     find_limit call = min (max (limit req) 1) 1000 \<and>
     1 \<le> find_limit call \<and> find_limit call \<le> 1000 \<and>
     (limit req \<le> 0 \<longrightarrow> find_limit call = 1) \<and>
     (1 \<le> limit req \<and> limit req \<le> 1000 \<longrightarrow> find_limit call = limit req) \<and>
     (1000 \<le> limit req \<longrightarrow> find_limit call = 1000) \<and>
     limit (QueryRequest_new d q None) = 100"
  using query_dataset_call [of req db] by (auto simp: QueryRequest_new_def)

theorem query_limit_clamped_witness:
  "(\<exists>call. query_dataset (Some ()) (QueryRequest_new ''d1'' ''a = 1'' (Some 0)) = Inr call \<and>
      find_limit call = 1) \<and>
   (\<exists>call. query_dataset (Some ()) (QueryRequest_new ''d1'' ''a = 1'' (Some (- 7))) = Inr call \<and>
      find_limit call = 1) \<and>
   (\<exists>call. query_dataset (Some ()) (QueryRequest_new ''d1'' ''a = 1'' (Some 5000)) = Inr call \<and>
      find_limit call = 1000) \<and>
   (\<exists>call. query_dataset (Some ()) (QueryRequest_new ''d1'' ''a = 1'' None) = Inr call \<and>
      find_limit call = 100)"
  using query_limit_clamped [of "()" "QueryRequest_new ''d1'' ''a = 1'' (Some 0)"]
    query_limit_clamped [of "()" "QueryRequest_new ''d1'' ''a = 1'' (Some (- 7))"]
    query_limit_clamped [of "()" "QueryRequest_new ''d1'' ''a = 1'' (Some 5000)"]
    query_limit_clamped [of "()" "QueryRequest_new ''d1'' ''a = 1'' None"]
  by (auto simp: QueryRequest_new_def)

lemma scan_ops_find:
  "scan_ops os c =
     (case List.find (\<lambda>op. contains_str op c) os of
        None \<Rightarrow> Inr []
      | Some op \<Rightarrow> compare_clause op c)"
  by (induction os) simp_all

lemma contains_str_subset: "contains_str sub s \<Longrightarrow> set sub \<subseteq> set s"
proof (induction s)
  case Nil
  then show ?case by simp
next
  case (Cons x xs)
  from Cons.prems have "startswith (x # xs) sub \<or> contains_str sub xs" by simp
  then show ?case
  proof
    assume "startswith (x # xs) sub"
    then have "sub = take (length sub) (x # xs)" by (simp add: startswith_def)
    then have "set sub \<subseteq> set (x # xs)" by (metis set_take_subset)
    then show ?thesis .
  next
    assume "contains_str sub xs"
    with Cons.IH show ?thesis by auto
  qed
qed

lemma contains_str_single: "contains_str [a] s = (a \<in> set s)"
  by (induction s) (auto simp: startswith_def)

subsection \<open>The operator \<open>!=\<close>\<close>

lemma first_op_not_ne: "List.find (\<lambda>op. contains_str op c) ops \<noteq> Some ''!=''"
proof -
  have "contains_str ''!='' c \<Longrightarrow> contains_str ''='' c"
    using contains_str_subset [of "''!=''" c] by (simp add: contains_str_single)
  then show ?thesis by (auto simp: ops_def)
qed

lemma find_SomeD: "List.find P xs = Some x \<Longrightarrow> x \<in> set xs \<and> P x"
  by (induction xs) (auto split: if_splits)

lemma compare_clause_cases:
  "compare_clause op c = Inl ValueError \<or> compare_clause op c = Inr [] \<or>
   (\<exists>a b m. split_once op c = [a, b] \<and>
      map_of mongo_op_map (if strip op = ''is'' then ''='' else op) = Some m \<and>
      compare_clause op c = Inr [FieldCond (''data.'' @ strip a) (Op m (cast_value (strip b)))])"
proof (cases "split_once op c")
  case Nil
  then show ?thesis by (simp add: compare_clause_def)
next
  case (Cons a r)
  note c1 = this
  show ?thesis
  proof (cases r)
    case Nil
    with c1 show ?thesis by (simp add: compare_clause_def)
  next
    case (Cons b r2)
    note c2 = this
    show ?thesis
    proof (cases r2)
      case Nil
      with c1 c2 show ?thesis
        by (cases "map_of mongo_op_map (if strip op = ''is'' then ''='' else op)")
           (simp_all add: compare_clause_def Let_def)
    next
      case (Cons x r3)
      with c1 c2 show ?thesis by (simp add: compare_clause_def)
    qed
  qed
qed

lemma ops_targets:
  "op \<in> set ops \<Longrightarrow> op \<noteq> ''!='' \<Longrightarrow>
   map_of mongo_op_map (if strip op = ''is'' then ''='' else op) \<noteq> Some ''$ne''"
  unfolding ops_def
  by (elim disjE | simp add: mongo_op_map_def strip_def isspace_def)+

lemma ne_never_emitted:
  assumes "compile_clause c = Inr ps"
  shows "FieldCond k (Op ''$ne'' v) \<notin> set ps"
proof (cases "startswith (lower c) ''contains ''")
  case True
  with assms have "ps = [] \<or> (\<exists>f p opt. ps = [FieldCond f (Regex p opt)])"
    by (auto simp: compile_clause_def Let_def split: if_splits)
  then show ?thesis by auto
next
  case False
  with assms have s: "scan_ops ops c = Inr ps" by (simp add: compile_clause_def)
  show ?thesis
  proof (cases "List.find (\<lambda>op. contains_str op c) ops")
    case None
    with s show ?thesis by (simp add: scan_ops_find)
  next
    case (Some op)
    with s have cc: "compare_clause op c = Inr ps" by (simp add: scan_ops_find)
    from Some have "op \<in> set ops" by (rule find_SomeD [THEN conjunct1])
    moreover from Some have "op \<noteq> ''!=''" using first_op_not_ne [of c] by auto
    ultimately have t: "map_of mongo_op_map (if strip op = ''is'' then ''='' else op) \<noteq> Some ''$ne''"
      by (rule ops_targets)
    from compare_clause_cases [of op c] cc t show ?thesis by auto
  qed
qed

text \<open>
  C2. The clause \<open>age != 30\<close> is cut at \<open>=\<close>, which stands before \<open>!=\<close> in the list of
  operators and occurs in every text where \<open>!=\<close> does: the column is \<open>age !\<close> and the
  comparison is \<open>$eq\<close>.
\<close>

theorem ne_clause_compiles_to_eq:
  "build_filter ''d1'' ''age != 30'' =
     Inr (And [FieldIs ''dataset_id'' (VStr ''d1''),
               FieldCond ''data.age !'' (Op ''$eq'' (VInt 30))])"
  by (simp add: eval_defs)

subsection \<open>Dropped clauses\<close>

text \<open>
  C3. No clause raises. A \<open>contains\<close> clause of fewer than three words and a clause
  without any operator add nothing. The conditions of a query are those of its clauses,
  each compiled on its own, in order. The query \<open>contains name John and age >= 30\<close> gives
  the scope and two conditions, and with either clause malformed the other one stays.
\<close>

theorem malformed_clauses_dropped:
  "(\<exists>ps. compile_clause c = Inr ps) \<and>
   (startswith (lower c) ''contains '' \<and> length (split_ws c) < 3 \<longrightarrow>
      compile_clause c = Inr []) \<and>
   (\<not> startswith (lower c) ''contains '' \<and> list_all (\<lambda>op. \<not> contains_str op c) ops \<longrightarrow>
      compile_clause c = Inr []) \<and>
   compile_clauses cs acc = Inr (acc @ concat (map clause_parts cs)) \<and>
   compile_clause c = Inr (clause_parts c) \<and>
   (\<exists>f. build_filter did q = Inr f) \<and>
   build_filter did ''contains name John and age >= 30'' =
     Inr (And [FieldIs ''dataset_id'' (VStr did),
               FieldCond ''data.name'' (Regex ''John'' ''i''),
               FieldCond ''data.age'' (Op ''$gte'' (VInt 30))]) \<and>
   build_filter did ''contains name and age >= 30'' =
     Inr (And [FieldIs ''dataset_id'' (VStr did),
               FieldCond ''data.age'' (Op ''$gte'' (VInt 30))]) \<and>
   build_filter did ''contains name John and age 30'' =
     Inr (And [FieldIs ''dataset_id'' (VStr did),
               FieldCond ''data.name'' (Regex ''John'' ''i'')])"
proof -
  have a: "startswith (lower c) ''contains '' \<and> length (split_ws c) < 3 \<longrightarrow>
      compile_clause c = Inr []"
    by (simp add: compile_clause_def Let_def)
  have "list_all (\<lambda>op. \<not> contains_str op c) os \<Longrightarrow> scan_ops os c = Inr []" for os
    by (induction os) simp_all
  then have b: "\<not> startswith (lower c) ''contains '' \<and>
      list_all (\<lambda>op. \<not> contains_str op c) ops \<longrightarrow> compile_clause c = Inr []"
    by (simp add: compile_clause_def)
  have e1: "build_filter did ''contains name John and age >= 30'' =
     Inr (And [FieldIs ''dataset_id'' (VStr did),
               FieldCond ''data.name'' (Regex ''John'' ''i''),
               FieldCond ''data.age'' (Op ''$gte'' (VInt 30))])"
    by (simp add: eval_defs)
  have e2: "build_filter did ''contains name and age >= 30'' =
     Inr (And [FieldIs ''dataset_id'' (VStr did),
               FieldCond ''data.age'' (Op ''$gte'' (VInt 30))])"
    by (simp add: eval_defs)
  have e3: "build_filter did ''contains name John and age 30'' =
     Inr (And [FieldIs ''dataset_id'' (VStr did),
               FieldCond ''data.name'' (Regex ''John'' ''i'')])"
    by (simp add: eval_defs)
  from a b e1 e2 e3 compile_clause_total [of c] compile_clauses_concat [of cs acc]
    compile_clause_parts [of c] build_filter_total [of did q]
  show ?thesis by (intro conjI)
qed

theorem malformed_clauses_dropped_witness:
  "startswith (lower ''contains name'') ''contains '' \<and> length (split_ws ''contains name'') < 3 \<and>
   compile_clause ''contains name'' = Inr [] \<and>
   \<not> startswith (lower ''age 30'') ''contains '' \<and>
   list_all (\<lambda>op. \<not> contains_str op ''age 30'') ops \<and>
   compile_clause ''age 30'' = Inr []"
proof -
  have h1: "startswith (lower ''contains name'') ''contains '' \<and>
      length (split_ws ''contains name'') < 3"
    by (simp add: eval_defs)
  have h2: "\<not> startswith (lower ''age 30'') ''contains '' \<and>
      list_all (\<lambda>op. \<not> contains_str op ''age 30'') ops"
    by (simp add: eval_defs)
  note t1 = malformed_clauses_dropped [of "''contains name''", THEN conjunct2, THEN conjunct1]
  note t2 = malformed_clauses_dropped [of "''age 30''", THEN conjunct2, THEN conjunct2,
      THEN conjunct1]
  from t1 [THEN mp, OF h1] t2 [THEN mp, OF h2] h1 h2
  show ?thesis by (intro conjI) (erule conjunct1 conjunct2 | assumption)+
qed

subsection \<open>The value of a comparison\<close>



subsection \<open>The pattern of a \<open>contains\<close> clause\<close>

text \<open>
  C9. The text after the column of a \<open>contains\<close> clause goes into \<open>$regex\<close> as it is: for
  \<open>contains name a.c\<close> the pattern is \<open>a.c\<close>, whose point the store reads as any
  character, not as a point.
\<close>

theorem contains_value_is_raw_pattern:
  "build_filter ''d1'' ''contains name a.c'' =
     Inr (And [FieldIs ''dataset_id'' (VStr ''d1''),
               FieldCond ''data.name'' (Regex ''a.c'' ''i'')])"
  by (simp add: eval_defs)

subsection \<open>Decoding never fails\<close>

lemma utf8_decode_ignore_total: "\<exists>text. utf8_decode Ignore bs = Inr text"
proof (induction "Ignore" bs rule: utf8_decode.induct)
  case 1
  show ?case by simp
next
  case (2 ch r)
  show ?case
  proof (cases "utf8_first (ch # r)")
    case (Decoded cp n)
    with 2(1) [OF Decoded] show ?thesis by (auto simp del: utf8_first.simps)
  next
    case InvalidStart
    with 2(2) show ?thesis by (auto simp del: utf8_first.simps)
  next
    case (InvalidContinuation n)
    with 2(3) show ?thesis by (auto simp del: utf8_first.simps)
  next
    case UnexpectedEnd
    then show ?thesis by (simp del: utf8_first.simps)
  qed
qed

lemma utf8_decode_strict_fails: "utf8_decode Strict [0x41, 0xFF] = Inl UnicodeDecodeError"
  by simp

lemma utf8_decode_ignore_drops:
  "utf8_decode Ignore [0x41, 0xFF, 0xC3, 0xA9, 0xE2, 0x82, 0x41, 0xC3] = Inr [65, 233, 65]"
  by (simp add: is_continuation_def)

text \<open>
  C10. Whatever the bytes of the file, decoding them as UTF-8 under \<open>ignore\<close> gives a
  text, so the step never answers 400 \<open>Unable to decode file as UTF-8\<close>.
\<close>

theorem decode_never_fails:
  "(\<exists>text. decode_content content = Inr text) \<and>
   decode_content content \<noteq> Inl (HTTPException 400 ''Unable to decode file as UTF-8'')"
  using utf8_decode_ignore_total [of content] by (auto simp: decode_content_def)

subsection \<open>The operator \<open>is\<close>\<close>


















lemma is_differs_on_empty_value:
  "build_filter ''d1'' ''status is '' = Inr (FieldIs ''dataset_id'' (VStr ''d1'')) \<and>
   build_filter ''d1'' ''status = '' =
     Inr (And [FieldIs ''dataset_id'' (VStr ''d1''),
               FieldCond ''data.status'' (Op ''$eq'' (VStr ''''))])"
  by (simp add: eval_defs)

lemma is_differs_on_column_contains:
  "build_filter ''d1'' ''contains is x'' =
     Inr (And [FieldIs ''dataset_id'' (VStr ''d1''),
               FieldCond ''data.is'' (Regex ''x'' ''i'')]) \<and>
   build_filter ''d1'' ''contains = x'' =
     Inr (And [FieldIs ''dataset_id'' (VStr ''d1''),
               FieldCond ''data.='' (Regex ''x'' ''i'')])"
  by (simp add: eval_defs)

lemma is_differs_on_value_and:
  "build_filter ''d1'' ''a is and b'' = Inr (FieldIs ''dataset_id'' (VStr ''d1'')) \<and>
   build_filter ''d1'' ''a = and b'' =
     Inr (And [FieldIs ''dataset_id'' (VStr ''d1''),
               FieldCond ''data.a'' (Op ''$eq'' (VStr ''''))])"
  by (simp add: eval_defs)



subsection \<open>The type of a cell\<close>

lemma strip_Nil: "strip [] = []"
  by (simp add: strip_def)

lemma no_number_in_empty: "isl (py_int []) \<and> isl (py_float [])"
  by (simp add: py_int_def py_float_def parse_decimal_def take_sign_def strip_def lower_def)

text \<open>
  C6, as stated, fails: the value \<open>true\<close> after a space is none of the words \<open>true\<close> and
  \<open>false\<close>, no number and no date, so the six rules make it a \<open>string\<close>; the code trims
  the value first and makes it a \<open>boolean\<close>.
\<close>

theorem infer_type_rules_counterexample:
  "infer_type (Some '' true'') = ''boolean'' \<and> infer_type_rules (Some '' true'') = ''string''"
  by (simp add: infer_type_def infer_type_rules_def eval_defs)

text \<open>
  C6, amended. The type of a cell is what the six rules give for the value without the
  whitespace around it: missing or empty is \<open>string\<close>, then the trimmed value decides,
  \<open>boolean\<close> for \<open>true\<close> and \<open>false\<close> in any case, \<open>number\<close> for what \<open>int\<close> or else
  \<open>float\<close> reads, \<open>date\<close> for a \<open>-\<close> or \<open>/\<close> together with a digit, \<open>string\<close> otherwise.
\<close>

theorem infer_type_trimmed_rules:
  "infer_type value = infer_type_rules (map_option strip value)"
proof (cases "value")
  case None
  then show ?thesis by (simp add: infer_type_def infer_type_rules_def)
next
  case (Some s)
  show ?thesis
  proof (cases "strip s = []")
    case True
    with Some no_number_in_empty show ?thesis
      by (simp add: infer_type_def infer_type_rules_def Let_def lower_def)
  next
    case False
    then have "s \<noteq> []" by (auto simp: strip_Nil)
    with Some False show ?thesis
      by (simp add: infer_type_def infer_type_rules_def Let_def)
  qed
qed

subsection \<open>The vote\<close>

lemma first_seen_snoc:
  "first_seen (xs @ [x]) = (if x \<in> set xs then first_seen xs else first_seen xs @ [x])"
  by (simp add: first_seen_def)

lemma set_first_seen: "set (first_seen xs) = set xs"
  by (simp add: first_seen_def)

lemma distinct_first_seen: "distinct (first_seen xs)"
  by (simp add: first_seen_def)

lemma first_seen_Nil_iff: "first_seen xs = [] \<longleftrightarrow> xs = []"
  using set_first_seen [of xs] by (metis set_empty)

lemma dict_get_tabulate:
  "dict_get (map (\<lambda>k. (k, f k)) ks) t dflt = (if t \<in> set ks then f t else dflt)"
  by (induction ks) auto

lemma dict_set_tabulate_new:
  "t \<notin> set ks \<Longrightarrow> dict_set (map (\<lambda>k. (k, f k)) ks) t v = map (\<lambda>k. (k, f k)) ks @ [(t, v)]"
  by (induction ks) auto

lemma dict_set_tabulate_old:
  "t \<in> set ks \<Longrightarrow> distinct ks \<Longrightarrow>
   dict_set (map (\<lambda>k. (k, f k)) ks) t v = map (\<lambda>k. (k, if k = t then v else f k)) ks"
proof (induction ks)
  case Nil
  then show ?case by simp
next
  case (Cons k ks)
  show ?case
  proof (cases "k = t")
    case True
    with Cons.prems have "t \<notin> set ks" by simp
    then have "map (\<lambda>k. (k, f k)) ks = map (\<lambda>k. (k, if k = t then v else f k)) ks"
      by (intro map_cong) auto
    with True show ?thesis by simp
  next
    case False
    with Cons show ?thesis by simp
  qed
qed

lemma tally_counts:
  "foldl bump_count [] ts = map (\<lambda>k. (k, count_list ts k)) (first_seen ts)"
proof (induction ts rule: rev_induct)
  case Nil
  show ?case by (simp add: first_seen_def)
next
  case (snoc t ts)
  let ?ks = "first_seen ts"
  have step: "foldl bump_count [] (ts @ [t]) =
      bump_count (map (\<lambda>k. (k, count_list ts k)) ?ks) t"
    using snoc by simp
  show ?case
  proof (cases "t \<in> set ts")
    case True
    then have m: "t \<in> set ?ks" by (simp add: set_first_seen)
    have "bump_count (map (\<lambda>k. (k, count_list ts k)) ?ks) t =
        map (\<lambda>k. (k, if k = t then count_list ts t + 1 else count_list ts k)) ?ks"
      using m distinct_first_seen [of ts]
      by (simp add: bump_count_def dict_get_tabulate dict_set_tabulate_old)
    also have "\<dots> = map (\<lambda>k. (k, count_list (ts @ [t]) k)) ?ks"
      by (intro map_cong) auto
    also have "\<dots> = map (\<lambda>k. (k, count_list (ts @ [t]) k)) (first_seen (ts @ [t]))"
      using True by (simp only: first_seen_snoc if_True)
    finally show ?thesis using step by (simp only:)
  next
    case False
    then have m: "t \<notin> set ?ks" by (simp add: set_first_seen)
    have "bump_count (map (\<lambda>k. (k, count_list ts k)) ?ks) t =
        map (\<lambda>k. (k, count_list ts k)) ?ks @ [(t, 1)]"
      using m by (simp add: bump_count_def dict_get_tabulate dict_set_tabulate_new)
    also have "\<dots> = map (\<lambda>k. (k, count_list (ts @ [t]) k)) (?ks @ [t])"
    proof -
      have "map (\<lambda>k. (k, count_list ts k)) ?ks = map (\<lambda>k. (k, count_list (ts @ [t]) k)) ?ks"
        using m by (intro map_cong) auto
      moreover have "count_list (ts @ [t]) t = 1" using False by simp
      ultimately show ?thesis by (simp del: count_list_append)
    qed
    also have "\<dots> = map (\<lambda>k. (k, count_list (ts @ [t]) k)) (first_seen (ts @ [t]))"
      using False by (simp only: first_seen_snoc if_False)
    finally show ?thesis using step by (simp only:)
  qed
qed

lemma first_pos_snoc:
  "first_pos (xs @ [y]) x = (if x \<in> set xs then first_pos xs x else
     if x = y then length xs else Suc (length xs))"
proof (cases "x \<in> set xs")
  case True
  then show ?thesis by (simp add: first_pos_def)
next
  case False
  then have "takeWhile (\<lambda>z. z \<noteq> x) (xs @ [y]) = xs @ takeWhile (\<lambda>z. z \<noteq> x) [y]"
    by (intro takeWhile_append2) auto
  with False show ?thesis by (simp add: first_pos_def)
qed

lemma first_pos_less_length: "x \<in> set xs \<Longrightarrow> first_pos xs x < length xs"
  by (induction xs) (auto simp: first_pos_def)

lemma first_seen_sorted:
  "sorted_wrt (\<lambda>a b. first_pos xs a < first_pos xs b) (first_seen xs)"
proof (induction xs rule: rev_induct)
  case Nil
  show ?case by (simp add: first_seen_def)
next
  case (snoc x xs)
  have old: "sorted_wrt (\<lambda>a b. first_pos (xs @ [x]) a < first_pos (xs @ [x]) b) (first_seen xs)"
    using snoc
    by (rule sorted_wrt_mono_rel [rotated]) (simp add: first_pos_snoc set_first_seen)
  show ?case
  proof (cases "x \<in> set xs")
    case True
    with old show ?thesis by (simp add: first_seen_snoc)
  next
    case False
    have "\<forall>a\<in>set (first_seen xs). first_pos (xs @ [x]) a < first_pos (xs @ [x]) x"
      using False by (auto simp: first_pos_snoc set_first_seen first_pos_less_length)
    with old False show ?thesis by (simp add: first_seen_snoc sorted_wrt_append)
  qed
qed

lemma max_from_first:
  "\<exists>ys zs. best # r = ys @ max_from best r # zs \<and>
     (\<forall>e\<in>set ys. snd e < snd (max_from best r)) \<and>
     (\<forall>e\<in>set zs. snd e \<le> snd (max_from best r))"
proof (induction r arbitrary: best)
  case Nil
  show ?case by (intro exI [of _ "[]"]) simp
next
  case (Cons kv r)
  show ?case
  proof (cases "snd kv > snd best")
    case True
    from Cons [of kv] obtain ys zs where
      d: "kv # r = ys @ max_from kv r # zs" and
      lo: "\<forall>e\<in>set ys. snd e < snd (max_from kv r)" and
      hi: "\<forall>e\<in>set zs. snd e \<le> snd (max_from kv r)"
      by blast
    have "kv \<in> set (ys @ max_from kv r # zs)" using d by (metis list.set_intros(1))
    then have "snd kv \<le> snd (max_from kv r)" using lo hi by auto
    with True have b: "snd best < snd (max_from kv r)" by simp
    have m: "max_from best (kv # r) = max_from kv r" using True by simp
    show ?thesis unfolding m
      by (rule exI [of _ "best # ys"], rule exI [of _ zs]) (use d lo hi b in simp)
  next
    case False
    from Cons [of best] obtain ys zs where
      d: "best # r = ys @ max_from best r # zs" and
      lo: "\<forall>e\<in>set ys. snd e < snd (max_from best r)" and
      hi: "\<forall>e\<in>set zs. snd e \<le> snd (max_from best r)"
      by blast
    have m: "max_from best (kv # r) = max_from best r" using False by simp
    show ?thesis
    proof (cases ys)
      case Nil
      from d [unfolded Nil append_Nil] have e: "max_from best r = best" "r = zs" by auto
      show ?thesis unfolding m
        by (rule exI [of _ "[]"], rule exI [of _ "kv # zs"]) (use e hi False in auto)
    next
      case (Cons y ys')
      from d [unfolded Cons append_Cons] have y: "y = best"
        and r: "r = ys' @ max_from best r # zs" by auto
      from lo Cons y have "snd best < snd (max_from best r)" by simp
      with False have k: "snd kv < snd (max_from best r)" by simp
      show ?thesis unfolding m
        by (rule exI [of _ "best # kv # ys'"], rule exI [of _ zs])
          (use lo hi Cons y r k in auto)
    qed
  qed
qed

lemma count_row_fold:
  "foldl (\<lambda>tc c. count_cell tc r c) tc cols c' =
     foldl bump_count (tc c') (map (\<lambda>c. infer_type (r c)) (filter (\<lambda>c. c = c') cols))"
  by (induction cols arbitrary: tc) (simp_all add: count_cell_def)

lemma scan_row_counts:
  "type_counts (scan_row columns i r st) c' =
     (if i < 100
      then foldl bump_count (type_counts st c')
             (map (\<lambda>c. infer_type (r c)) (filter (\<lambda>c. c = c') columns))
      else type_counts st c')"
  by (simp add: scan_row_def Let_def count_row_fold)

lemma scan_rows_counts:
  "type_counts (scan_rows columns i rs st) c' =
     foldl bump_count (type_counts st c')
       (concat (map (\<lambda>r. map (\<lambda>c. infer_type (r c)) (filter (\<lambda>c. c = c') columns))
                    (take (100 - i) rs)))"
proof (induction rs arbitrary: i st)
  case Nil
  show ?case by simp
next
  case (Cons r rs)
  show ?case
  proof (cases "i < 100")
    case True
    then have "100 - i = Suc (100 - Suc i)" by simp
    then have "take (100 - i) (r # rs) = r # take (100 - Suc i) rs" by simp
    with True show ?thesis by (simp add: Cons scan_row_counts)
  next
    case False
    then show ?thesis by (simp add: Cons scan_row_counts)
  qed
qed

lemma column_type_value:
  "column_type d = Inr (case d of [] \<Rightarrow> ''string'' | kv # r \<Rightarrow> fst (max_from kv r))"
  by (cases d) (simp_all add: column_type_def max_items_def)

lemma map_of_dict_set: "map_of (dict_set d k v) x = (if x = k then Some v else map_of d x)"
  by (induction d) auto

lemma column_types_loop_result:
  "\<exists>ct'. column_types_loop cs tc ct = Inr ct' \<and>
     (\<forall>x. map_of ct' x =
        (if x \<in> set cs then (case column_type (tc x) of Inr t \<Rightarrow> Some t | Inl e \<Rightarrow> None)
         else map_of ct x))"
proof (induction cs arbitrary: ct)
  case Nil
  show ?case by simp
next
  case (Cons c cs)
  from column_type_value [of "tc c"] obtain t where t: "column_type (tc c) = Inr t" by blast
  from Cons [of "dict_set ct c t"] obtain ct' where
    l: "column_types_loop cs tc (dict_set ct c t) = Inr ct'" and
    m: "\<forall>x. map_of ct' x =
        (if x \<in> set cs then (case column_type (tc x) of Inr t \<Rightarrow> Some t | Inl e \<Rightarrow> None)
         else map_of (dict_set ct c t) x)"
    by blast
  have "column_types_loop (c # cs) tc ct = Inr ct'" using t l by simp
  moreover have "\<forall>x. map_of ct' x =
        (if x \<in> set (c # cs)
         then (case column_type (tc x) of Inr t \<Rightarrow> Some t | Inl e \<Rightarrow> None)
         else map_of ct x)"
    using m t by (auto simp: map_of_dict_set)
  ultimately show ?case by blast
qed

lemma winner_majority:
  assumes "column_type (foldl bump_count [] vs) = Inr t"
  shows "(vs = [] \<longrightarrow> t = ''string'') \<and>
     (vs \<noteq> [] \<longrightarrow> t \<in> set vs \<and>
        (\<forall>u. count_list vs u \<le> count_list vs t) \<and>
        (\<forall>u. u \<noteq> t \<and> count_list vs u = count_list vs t \<longrightarrow>
           first_pos vs t < first_pos vs u))"
proof (cases "vs = []")
  case True
  with assms show ?thesis by (simp add: column_type_value)
next
  case False
  let ?cnt = "\<lambda>k. (k, count_list vs k)"
  from False obtain k ks where ks: "first_seen vs = k # ks"
    by (cases "first_seen vs") (auto simp: first_seen_Nil_iff)
  define e where "e = max_from (?cnt k) (map ?cnt ks)"
  have tally: "foldl bump_count [] vs = ?cnt k # map ?cnt ks"
    by (simp add: tally_counts ks)
  with assms have t: "t = fst e" by (simp add: column_type_value e_def)
  from max_from_first [of "?cnt k" "map ?cnt ks"] obtain ys zs where
    d: "?cnt k # map ?cnt ks = ys @ e # zs" and
    lo: "\<forall>x\<in>set ys. snd x < snd e" and
    hi: "\<forall>x\<in>set zs. snd x \<le> snd e"
    unfolding e_def by blast
  have all: "map ?cnt (first_seen vs) = ys @ e # zs" using d ks by simp
  then have "e \<in> set (map ?cnt (first_seen vs))" by simp
  then have e: "e = (t, count_list vs t)" and tin: "t \<in> set vs"
    using t by (auto simp: set_first_seen)
  have mem: "(u, count_list vs u) \<in> set ys \<union> {e} \<union> set zs" if "u \<in> set vs" for u
  proof -
    from that have "?cnt u \<in> set (map ?cnt (first_seen vs))" by (simp add: set_first_seen)
    then show ?thesis unfolding all by auto
  qed
  have mx: "count_list vs u \<le> count_list vs t" for u
  proof (cases "u \<in> set vs")
    case True
    from mem [OF True] lo hi e show ?thesis by force
  next
    case False
    then show ?thesis by simp
  qed
  have keys: "first_seen vs = map fst ys @ t # map fst zs"
  proof -
    have "map fst (map ?cnt (first_seen vs)) = first_seen vs" by (simp add: comp_def)
    then show ?thesis unfolding all using e by simp
  qed
  have tie: "first_pos vs t < first_pos vs u" if ne: "u \<noteq> t"
    and eq: "count_list vs u = count_list vs t" for u
  proof -
    from tin have "count_list vs t \<noteq> 0" by (simp add: count_list_0_iff)
    with eq have "count_list vs u \<noteq> 0" by simp
    then have uin: "u \<in> set vs" by (simp add: count_list_0_iff)
    from mem [OF uin] lo e eq ne have "(u, count_list vs u) \<in> set zs" by force
    then have "u \<in> set (map fst zs)" by force
    moreover from first_seen_sorted [of vs]
    have "\<forall>b\<in>set (map fst zs). first_pos vs t < first_pos vs b"
      unfolding keys by (simp add: sorted_wrt_append)
    ultimately show ?thesis by blast
  qed
  from False tin mx tie show ?thesis by blast
qed

text \<open>
  C5. For every column of the header, the inferred type is a tag with the most votes
  among those the column got from the first 100 rows, and among the tags with that many
  votes the one that occurred first; a column without any vote is a \<open>string\<close>. The
  inference never raises.
\<close>

theorem column_type_majority:
  "\<exists>ct. infer_columns columns reader = Inr ct \<and>
     (\<forall>c\<in>set columns. \<exists>t. map_of ct c = Some t \<and>
        (column_votes columns reader c = [] \<longrightarrow> t = ''string'') \<and>
        (column_votes columns reader c \<noteq> [] \<longrightarrow>
           t \<in> set (column_votes columns reader c) \<and>
           (\<forall>u. count_list (column_votes columns reader c) u
                 \<le> count_list (column_votes columns reader c) t) \<and>
           (\<forall>u. u \<noteq> t \<and> count_list (column_votes columns reader c) u
                          = count_list (column_votes columns reader c) t \<longrightarrow>
              first_pos (column_votes columns reader c) t
                < first_pos (column_votes columns reader c) u)))"
proof -
  let ?st = "scan_rows columns 0 reader
      \<lparr>rows = [], preview_rows = [], type_counts = (\<lambda>c. [])\<rparr>"
  have tc: "type_counts ?st c = foldl bump_count [] (column_votes columns reader c)" for c
    by (simp add: scan_rows_counts column_votes_def)
  from column_types_loop_result [of columns "type_counts ?st" "[]"] obtain ct where
    l: "column_types_loop columns (type_counts ?st) [] = Inr ct" and
    m: "\<forall>x. map_of ct x =
        (if x \<in> set columns
         then (case column_type (type_counts ?st x) of Inr t \<Rightarrow> Some t | Inl e \<Rightarrow> None)
         else map_of [] x)"
    by blast
  have "\<exists>t. map_of ct c = Some t \<and>
        (column_votes columns reader c = [] \<longrightarrow> t = ''string'') \<and>
        (column_votes columns reader c \<noteq> [] \<longrightarrow>
           t \<in> set (column_votes columns reader c) \<and>
           (\<forall>u. count_list (column_votes columns reader c) u
                 \<le> count_list (column_votes columns reader c) t) \<and>
           (\<forall>u. u \<noteq> t \<and> count_list (column_votes columns reader c) u
                          = count_list (column_votes columns reader c) t \<longrightarrow>
              first_pos (column_votes columns reader c) t
                < first_pos (column_votes columns reader c) u))"
    if c: "c \<in> set columns" for c
  proof -
    from column_type_value [of "type_counts ?st c"] obtain t where
      t: "column_type (type_counts ?st c) = Inr t" by blast
    with m c have "map_of ct c = Some t" by simp
    moreover from t have "column_type (foldl bump_count [] (column_votes columns reader c)) = Inr t"
      by (simp only: tc)
    note winner_majority [OF this]
    ultimately show ?thesis by (intro exI [of _ t] conjI) simp_all
  qed
  with l show ?thesis by (simp add: infer_columns_def)
qed

theorem column_type_majority_witness:
  "(\<exists>ct. infer_columns [''a''] [\<lambda>c. Some ''1'', \<lambda>c. Some ''x''] = Inr ct \<and>
     column_votes [''a''] [\<lambda>c. Some ''1'', \<lambda>c. Some ''x''] ''a'' = [''number'', ''string''] \<and>
     map_of ct ''a'' = Some ''number'') \<and>
   (\<exists>ct. infer_columns [''a''] [] = Inr ct \<and> column_votes [''a''] [] ''a'' = [] \<and>
     map_of ct ''a'' = Some ''string'')"
proof -
  have a: "''a'' \<in> set [''a'']" by simp
  have none: "column_votes [''a''] [] ''a'' = []" by (simp add: column_votes_def)
  from column_type_majority [of "[''a'']" "[]"] obtain ct0 where
    all0: "infer_columns [''a''] [] = Inr ct0 \<and>
     (\<forall>c\<in>set [''a'']. \<exists>t. map_of ct0 c = Some t \<and>
        (column_votes [''a''] [] c = [] \<longrightarrow> t = ''string'') \<and>
        (column_votes [''a''] [] c \<noteq> [] \<longrightarrow>
           t \<in> set (column_votes [''a''] [] c) \<and>
           (\<forall>u. count_list (column_votes [''a''] [] c) u
                 \<le> count_list (column_votes [''a''] [] c) t) \<and>
           (\<forall>u. u \<noteq> t \<and> count_list (column_votes [''a''] [] c) u
                          = count_list (column_votes [''a''] [] c) t \<longrightarrow>
              first_pos (column_votes [''a''] [] c) t
                < first_pos (column_votes [''a''] [] c) u)))" ..
  from bspec [OF all0 [THEN conjunct2] a] obtain t0 where
    t0: "map_of ct0 ''a'' = Some t0 \<and>
        (column_votes [''a''] [] ''a'' = [] \<longrightarrow> t0 = ''string'') \<and>
        (column_votes [''a''] [] ''a'' \<noteq> [] \<longrightarrow>
           t0 \<in> set (column_votes [''a''] [] ''a'') \<and>
           (\<forall>u. count_list (column_votes [''a''] [] ''a'') u
                 \<le> count_list (column_votes [''a''] [] ''a'') t0) \<and>
           (\<forall>u. u \<noteq> t0 \<and> count_list (column_votes [''a''] [] ''a'') u
                          = count_list (column_votes [''a''] [] ''a'') t0 \<longrightarrow>
              first_pos (column_votes [''a''] [] ''a'') t0
                < first_pos (column_votes [''a''] [] ''a'') u))" ..
  from t0 [THEN conjunct2, THEN conjunct1, THEN mp, OF none] t0 [THEN conjunct1]
  have "map_of ct0 ''a'' = Some ''string''" by simp
  with all0 [THEN conjunct1] none
  have second: "\<exists>ct. infer_columns [''a''] [] = Inr ct \<and> column_votes [''a''] [] ''a'' = [] \<and>
     map_of ct ''a'' = Some ''string''"
    by (intro exI [of _ ct0] conjI)
  let ?reader = "[\<lambda>c. Some ''1'', \<lambda>c. Some ''x''] :: row list"
  let ?vs = "column_votes [''a''] ?reader ''a''"
  have vs: "?vs = [''number'', ''string'']"
    by (simp add: column_votes_def infer_type_def eval_defs)
  from column_type_majority [of "[''a'']" ?reader] obtain ct where
    all: "infer_columns [''a''] ?reader = Inr ct \<and>
     (\<forall>c\<in>set [''a'']. \<exists>t. map_of ct c = Some t \<and>
        (column_votes [''a''] ?reader c = [] \<longrightarrow> t = ''string'') \<and>
        (column_votes [''a''] ?reader c \<noteq> [] \<longrightarrow>
           t \<in> set (column_votes [''a''] ?reader c) \<and>
           (\<forall>u. count_list (column_votes [''a''] ?reader c) u
                 \<le> count_list (column_votes [''a''] ?reader c) t) \<and>
           (\<forall>u. u \<noteq> t \<and> count_list (column_votes [''a''] ?reader c) u
                          = count_list (column_votes [''a''] ?reader c) t \<longrightarrow>
              first_pos (column_votes [''a''] ?reader c) t
                < first_pos (column_votes [''a''] ?reader c) u)))" ..
  from all have l: "infer_columns [''a''] ?reader = Inr ct" by (rule conjunct1)
  from bspec [OF all [THEN conjunct2] a] obtain t where
    t: "map_of ct ''a'' = Some t \<and>
        (?vs = [] \<longrightarrow> t = ''string'') \<and>
        (?vs \<noteq> [] \<longrightarrow>
           t \<in> set ?vs \<and>
           (\<forall>u. count_list ?vs u \<le> count_list ?vs t) \<and>
           (\<forall>u. u \<noteq> t \<and> count_list ?vs u = count_list ?vs t \<longrightarrow>
              first_pos ?vs t < first_pos ?vs u))"
    ..
  have ne: "?vs \<noteq> []" by (simp only: vs) simp
  from t [THEN conjunct2, THEN conjunct2, THEN mp, OF ne]
  have tin: "t \<in> set [''number'', ''string'']"
    and tie: "\<forall>u. u \<noteq> t \<and> count_list [''number'', ''string''] u
                = count_list [''number'', ''string''] t \<longrightarrow>
              first_pos [''number'', ''string''] t < first_pos [''number'', ''string''] u"
    unfolding vs by (rule conjunct1, rule conjunct2 [THEN conjunct2])
  have "t \<noteq> ''string''"
  proof
    assume s: "t = ''string''"
    from tie [THEN spec, of "''number''"] show False
      unfolding s by (simp add: first_pos_def)
  qed
  with tin have "t = ''number''" by simp
  with t [THEN conjunct1] have "map_of ct ''a'' = Some ''number''" by simp
  with l vs have "\<exists>ct. infer_columns [''a''] ?reader = Inr ct \<and>
     ?vs = [''number'', ''string''] \<and> map_of ct ''a'' = Some ''number''"
    by (intro exI [of _ ct] conjI)
  with second show ?thesis by (intro conjI)
qed

end
